theory Spec2Isabelle
  imports Complex_Main
begin

section \<open>The read path of graphite-web: \<^verbatim>\<open>webapp/graphite/readers.py\<close>\<close>

text \<open>
  The module is Python 2. The bounds and the step of a window and the slot indices
  are Python integers (unbounded, \<^typ>\<open>int\<close>), on which \<^verbatim>\<open>/\<close> is floor division,
  exactly as \<open>div\<close> on \<^typ>\<open>int\<close>. The timestamp of a cache point is a number that
  need not be whole (the cache keeps what it was sent, as a float). A sample is a
  number or Python's \<^verbatim>\<open>None\<close>. Timestamps and samples are taken as exact reals, so
  rounding of floats is outside the model, and a whole timestamp is the real of
  that integer. Every exception the module can raise is a value of \<open>exn\<close>, and a
  function that can raise returns \<open>exn + 'a\<close>.
\<close>

subsection \<open>Python primitives\<close>

datatype exn =
    IndexError
  | ZeroDivisionError
  | ValueError
  | TypeError
  | CarbonLinkError
  | SubfetchError
  | AllSubFetchesFailed
  | InvalidConsolidationFunction string

type_synonym sample = "real option"
type_synonym time_info = "int \<times> int \<times> int"
type_synonym cachepoint = "real \<times> sample"
type_synonym fetched = "time_info \<times> sample list"

text \<open>\<^verbatim>\<open>a / b\<close> on integers: floor division; a zero divisor raises.\<close>

definition floordiv :: "int \<Rightarrow> int \<Rightarrow> exn + int" where
  "floordiv a b = (if b = 0 then Inl ZeroDivisionError else Inr (a div b))"

text \<open>
  \<^verbatim>\<open>int(x)\<close> on a number: the integer part, rounding toward zero (so \<open>int(-0.5)\<close> is 0,
  and \<open>int(n)\<close> is \<open>n\<close> for a whole \<open>n\<close>).
\<close>

definition py_int :: "real \<Rightarrow> int" where
  "py_int x = (if 0 \<le> x then \<lfloor>x\<rfloor> else \<lceil>x\<rceil>)"

text \<open>
  \<^verbatim>\<open>a % b\<close> on a number \<open>a\<close> and an integer \<open>b\<close>: the remainder with the sign of the
  divisor, \<open>a - b * floor(a / b)\<close>; a zero divisor raises.
\<close>

definition real_mod :: "real \<Rightarrow> int \<Rightarrow> real" where
  "real_mod a b = a - of_int b * of_int \<lfloor>a / of_int b\<rfloor>"

definition pymod :: "real \<Rightarrow> int \<Rightarrow> exn + real" where
  "pymod a b = (if b = 0 then Inl ZeroDivisionError else Inr (real_mod a b))"

text \<open>
  \<^verbatim>\<open>xs[i]\<close> and \<^verbatim>\<open>xs[i] = v\<close> on a list: an index from \<open>-len(xs)\<close> to \<open>-1\<close> counts
  from the end, an index outside \<open>-len(xs) .. len(xs) - 1\<close> raises \<^verbatim>\<open>IndexError\<close>.
\<close>

definition getitem :: "'a list \<Rightarrow> int \<Rightarrow> exn + 'a" where
  "getitem xs i =
     (if 0 \<le> i \<and> i < int (length xs) then Inr (xs ! nat i)
      else if i < 0 \<and> - int (length xs) \<le> i then Inr (xs ! nat (int (length xs) + i))
      else Inl IndexError)"

definition setitem :: "'a list \<Rightarrow> int \<Rightarrow> 'a \<Rightarrow> exn + 'a list" where
  "setitem xs i v =
     (if 0 \<le> i \<and> i < int (length xs) then Inr (xs[nat i := v])
      else if i < 0 \<and> - int (length xs) \<le> i then Inr (xs[nat (int (length xs) + i) := v])
      else Inl IndexError)"

subsection \<open>\<^verbatim>\<open>consolidate\<close> (lines 294--305)\<close>

text \<open>
  \<^verbatim>\<open>usable = [v for v in values if v is not None]\<close>; \<^verbatim>\<open>sum\<close> adds from the left
  starting at 0, \<^verbatim>\<open>max\<close> and \<^verbatim>\<open>min\<close> scan from the left keeping the best so far.
  The function name is tested only after the test for an empty \<open>usable\<close>, so
  \<^verbatim>\<open>max\<close> and \<^verbatim>\<open>min\<close> are never called on an empty list (where Python raises); the
  equations of \<open>py_max\<close> and \<open>py_min\<close> for \<open>[]\<close> only make the functions total.
\<close>

definition usable_of :: "sample list \<Rightarrow> real list" where
  "usable_of vs = map the (filter (\<lambda>v. v \<noteq> None) vs)"

definition py_sum :: "real list \<Rightarrow> real" where
  "py_sum us = foldl (+) 0 us"

fun py_max :: "real list \<Rightarrow> real" where
  "py_max [] = 0"
| "py_max (u # us) = foldl (\<lambda>m x. if x > m then x else m) u us"

fun py_min :: "real list \<Rightarrow> real" where
  "py_min [] = 0"
| "py_min (u # us) = foldl (\<lambda>m x. if x < m then x else m) u us"

definition consolidate :: "string \<Rightarrow> sample list \<Rightarrow> exn + sample" where
  "consolidate func vs =
     (let usable = usable_of vs in
      if usable = [] then Inr None
      else if func = ''sum'' then Inr (Some (py_sum usable))
      else if func = ''average'' then Inr (Some (py_sum usable / real (length usable)))
      else if func = ''max'' then Inr (Some (py_max usable))
      else if func = ''min'' then Inr (Some (py_min usable))
      else Inl (InvalidConsolidationFunction func))"

subsection \<open>\<^verbatim>\<open>merge_with_cache\<close> (lines 289--336)\<close>

text \<open>
  \<open>consolidated_dict\<close> maps an aligned timestamp to the list of the values seen for
  it. It is kept as an association list in the order in which keys were first
  inserted; \<open>dict_add\<close> is the body of the first loop (append to the list of a key
  that is present, start a new list otherwise). The result does not depend on the
  order chosen (\<open>consolidated_order_irrelevant\<close> below).
\<close>

type_synonym cdict = "(real \<times> sample list) list"

fun dict_add :: "cdict \<Rightarrow> real \<Rightarrow> sample \<Rightarrow> cdict" where
  "dict_add [] k v = [(k, [v])]"
| "dict_add ((k', vs) # d) k v =
     (if k' = k then (k', vs @ [v]) # d else (k', vs) # dict_add d k v)"

fun group_loop :: "int \<Rightarrow> cdict \<Rightarrow> cachepoint list \<Rightarrow> exn + cdict" where
  "group_loop step d [] = Inr d"
| "group_loop step d ((timestamp, v) # ps) =
     (case pymod timestamp step of
        Inl e \<Rightarrow> Inl e
      | Inr r \<Rightarrow> group_loop step (dict_add d (timestamp - r) v) ps)"

fun consolidate_loop :: "string \<Rightarrow> cdict \<Rightarrow> exn + cachepoint list" where
  "consolidate_loop func [] = Inr []"
| "consolidate_loop func ((interval, vs) # d) =
     (case consolidate func vs of
        Inl e \<Rightarrow> Inl e
      | Inr v \<Rightarrow>
          (case consolidate_loop func d of
             Inl e \<Rightarrow> Inl e
           | Inr rest \<Rightarrow> Inr ((interval, v) # rest)))"

text \<open>
  The body of the last loop: \<^verbatim>\<open>i = int(interval - start) / step\<close>, the conversion
  first and the floor division after it. The \<^verbatim>\<open>try\<close> covers the division and the
  assignment, and \<^verbatim>\<open>except: pass\<close> leaves the list as it is; a negative index is
  skipped by the explicit \<^verbatim>\<open>continue\<close> before the assignment is reached.
\<close>

definition apply_point :: "int \<Rightarrow> int \<Rightarrow> sample list \<Rightarrow> cachepoint \<Rightarrow> sample list" where
  "apply_point start step vals p =
     (case floordiv (py_int (fst p - of_int start)) step of
        Inl e \<Rightarrow> vals
      | Inr i \<Rightarrow>
          if i < 0 then vals
          else (case setitem vals i (snd p) of Inl e \<Rightarrow> vals | Inr vals' \<Rightarrow> vals'))"

definition apply_loop :: "int \<Rightarrow> int \<Rightarrow> sample list \<Rightarrow> cachepoint list \<Rightarrow> sample list" where
  "apply_loop start step vals consolidated = foldl (apply_point start step) vals consolidated"

text \<open>
  \<^verbatim>\<open>func=None\<close> is the default; \<^verbatim>\<open>if func:\<close> holds for a string that is not empty.
\<close>

definition merge_with_cache ::
  "cachepoint list \<Rightarrow> int \<Rightarrow> int \<Rightarrow> sample list \<Rightarrow> string option \<Rightarrow> exn + sample list" where
  "merge_with_cache cached_datapoints start step vals func =
     (case (case func of
              None \<Rightarrow> Inr cached_datapoints
            | Some f \<Rightarrow>
                if f = [] then Inr cached_datapoints
                else (case group_loop step [] cached_datapoints of
                        Inl e \<Rightarrow> Inl e
                      | Inr d \<Rightarrow> consolidate_loop f d)) of
        Inl e \<Rightarrow> Inl e
      | Inr consolidated \<Rightarrow> Inr (apply_loop start step vals consolidated))"

text \<open>
  The grouping in the words of the specification, for comparison with the loops
  above: the slot of a timestamp is \<open>timestamp - (timestamp mod step)\<close>, and there is
  one group for every slot that occurs, in the order in which the slots first occur,
  holding the values of all points of that slot in iteration order.
\<close>

definition slot_of :: "int \<Rightarrow> real \<Rightarrow> real" where
  "slot_of step timestamp = timestamp - real_mod timestamp step"

definition slot_groups :: "int \<Rightarrow> cachepoint list \<Rightarrow> cdict" where
  "slot_groups step ps =
     map (\<lambda>k. (k, map snd (filter (\<lambda>p. slot_of step (fst p) = k) ps)))
       (rev (remdups (rev (map (\<lambda>p. slot_of step (fst p)) ps))))"

subsection \<open>\<^verbatim>\<open>MultiReader.merge\<close> (lines 79--119)\<close>

text \<open>
  A fetch result is \<open>((start, end, step), values)\<close>. \<open>lookup_slot\<close> is the guarded
  read \<^verbatim>\<open>values[i] if len(values) > i else None\<close>: the guard bounds the index from
  above only, so a negative index reaches Python's indexing from the end.
\<close>

definition lookup_slot :: "sample list \<Rightarrow> int \<Rightarrow> exn + sample" where
  "lookup_slot vs i = (if int (length vs) > i then getitem vs i else Inr None)"

text \<open>The body of the \<^verbatim>\<open>while\<close> loop: the value appended for the slot at time \<open>t\<close>.\<close>

definition merge_slot :: "fetched \<Rightarrow> fetched \<Rightarrow> int \<Rightarrow> exn + sample" where
  "merge_slot results1 results2 t =
     (case results1 of ((start1, end1, step1), values1) \<Rightarrow>
      case results2 of ((start2, end2, step2), values2) \<Rightarrow>
        (case floordiv (t - start1) step1 of
           Inl e \<Rightarrow> Inl e
         | Inr i1 \<Rightarrow>
             (case lookup_slot values1 i1 of
                Inl e \<Rightarrow> Inl e
              | Inr None \<Rightarrow>
                  (case floordiv (t - start2) step2 of
                     Inl e \<Rightarrow> Inl e
                   | Inr i2 \<Rightarrow> lookup_slot values2 i2)
              | Inr (Some x) \<Rightarrow> Inr (Some x))))"

text \<open>
  \<^verbatim>\<open>while t < end: ...; t += step\<close>. With a step that is not positive the loop
  need not end; not returning is the value \<open>None\<close>.
\<close>

partial_function (option) merge_loop ::
  "fetched \<Rightarrow> fetched \<Rightarrow> int \<Rightarrow> int \<Rightarrow> int \<Rightarrow> sample list \<Rightarrow> (exn + sample list) option" where
  "merge_loop results1 results2 step end_time t acc =
     (if t < end_time then
        (case merge_slot results1 results2 t of
           Inl e \<Rightarrow> Some (Inl e)
         | Inr v \<Rightarrow> merge_loop results1 results2 step end_time (t + step) (acc @ [v]))
      else Some (Inr acc))"

definition merge :: "fetched \<Rightarrow> fetched \<Rightarrow> (exn + fetched) option" where
  "merge results1 results2 =
     (let (r1, r2) =
            (if snd (snd (fst results1)) > snd (snd (fst results2))
             then (results2, results1) else (results1, results2))
      in case r1 of ((start1, end1, step1), values1) \<Rightarrow>
         case r2 of ((start2, end2, step2), values2) \<Rightarrow>
           (let step = step1;
                start = min start1 start2;
                end_time = max end1 end2
            in case merge_loop r1 r2 step end_time start [] of
                 None \<Rightarrow> None
               | Some (Inl e) \<Rightarrow> Some (Inl e)
               | Some (Inr vs) \<Rightarrow> Some (Inr ((start, end_time, step), vs))))"

text \<open>
  The merged value of a slot in the words of the specification, for comparison with
  \<open>merge_slot\<close>: the finer series' value at the index of \<open>t\<close> if that index exists and
  the value is not missing, otherwise the coarser series' value at its index of \<open>t\<close>
  if that index exists, otherwise missing. An index exists when it is at least zero
  and below the length. \<open>slot_times\<close> are the times \<open>start, start + step, ...\<close> below
  \<open>end\<close>.
\<close>

definition claimed_slot :: "fetched \<Rightarrow> fetched \<Rightarrow> int \<Rightarrow> sample" where
  "claimed_slot finer coarser t =
     (case finer of ((start1, end1, step1), values1) \<Rightarrow>
      case coarser of ((start2, end2, step2), values2) \<Rightarrow>
        (let i1 = (t - start1) div step1;
             i2 = (t - start2) div step2
         in if 0 \<le> i1 \<and> i1 < int (length values1) \<and> values1 ! nat i1 \<noteq> None
            then values1 ! nat i1
            else if 0 \<le> i2 \<and> i2 < int (length values2) then values2 ! nat i2
            else None))"

function slot_times :: "int \<Rightarrow> int \<Rightarrow> int \<Rightarrow> int list" where
  "slot_times start step end_time =
     (if 0 < step \<and> start < end_time then start # slot_times (start + step) step end_time
      else [])"
  by pat_completeness auto
termination
  by (relation "measure (\<lambda>(start, step, end_time). nat (end_time - start))") auto

declare slot_times.simps [simp del]

definition claimed_merge :: "fetched \<Rightarrow> fetched \<Rightarrow> fetched" where
  "claimed_merge results1 results2 =
     (let (finer, coarser) =
            (if snd (snd (fst results1)) > snd (snd (fst results2))
             then (results2, results1) else (results1, results2))
      in case finer of ((start1, end1, step1), values1) \<Rightarrow>
         case coarser of ((start2, end2, step2), values2) \<Rightarrow>
           ((min start1 start2, max end1 end2, step1),
            map (claimed_slot finer coarser)
              (slot_times (min start1 start2) step1 (max end1 end2))))"

subsection \<open>\<^verbatim>\<open>MultiReader.fetch\<close> (lines 55--77)\<close>

text \<open>
  What a node's \<^verbatim>\<open>fetch\<close> hands back: data (a fetch result, or \<^verbatim>\<open>None\<close> for no
  data) returned at once, or a \<^verbatim>\<open>FetchInProgress\<close> handle, given here by the outcome
  of its \<^verbatim>\<open>waitForResults()\<close>: an exception, or the data it returns.
\<close>

datatype fetch_result =
    Data "fetched option"
  | FetchInProgress "exn + fetched option"

text \<open>
  The loop over \<^verbatim>\<open>enumerate(fetches)\<close> that fills the dictionary \<open>results\<close>. Its
  keys are the indices 0, 1, 2, ..., whose dictionary order in CPython 2 is the
  ascending one, so \<^verbatim>\<open>results.values()\<close> is the list built here. The \<^verbatim>\<open>if\<close> has no
  \<^verbatim>\<open>else\<close>: for a result that is not a handle nothing is stored.
\<close>

fun wait_loop :: "fetch_result list \<Rightarrow> fetched option list" where
  "wait_loop [] = []"
| "wait_loop (FetchInProgress w # fetches) =
     (case w of Inl e \<Rightarrow> None | Inr r \<Rightarrow> r) # wait_loop fetches"
| "wait_loop (Data r # fetches) = wait_loop fetches"

fun not_none :: "'a option list \<Rightarrow> 'a list" where
  "not_none [] = []"
| "not_none (None # rs) = not_none rs"
| "not_none (Some r # rs) = r # not_none rs"

text \<open>\<^verbatim>\<open>reduce(self.merge, results)\<close> on a list that is not empty: a left fold.\<close>

fun reduce_merge :: "fetched \<Rightarrow> fetched list \<Rightarrow> (exn + fetched) option" where
  "reduce_merge acc [] = Some (Inr acc)"
| "reduce_merge acc (r # rs) =
     (case merge acc r of
        None \<Rightarrow> None
      | Some (Inl e) \<Rightarrow> Some (Inl e)
      | Some (Inr m) \<Rightarrow> reduce_merge m rs)"

definition merge_results :: "fetch_result list \<Rightarrow> (exn + fetched) option" where
  "merge_results fetches =
     (case not_none (wait_loop fetches) of
        [] \<Rightarrow> Some (Inl AllSubFetchesFailed)
      | r # rs \<Rightarrow> reduce_merge r rs)"

text \<open>
  A node is its \<^verbatim>\<open>fetch\<close> method, which may itself raise. \<open>MultiReader_fetch\<close> calls
  every node, in order, and returns the handle whose \<^verbatim>\<open>waitForResults()\<close> is
  \<open>merge_results\<close>; the value given here is the outcome of awaiting that handle.
\<close>

type_synonym node = "int \<Rightarrow> int \<Rightarrow> exn + fetch_result"

fun start_fetches :: "node list \<Rightarrow> int \<Rightarrow> int \<Rightarrow> exn + fetch_result list" where
  "start_fetches [] startTime endTime = Inr []"
| "start_fetches (n # nodes) startTime endTime =
     (case n startTime endTime of
        Inl e \<Rightarrow> Inl e
      | Inr f \<Rightarrow>
          (case start_fetches nodes startTime endTime of
             Inl e \<Rightarrow> Inl e
           | Inr fs \<Rightarrow> Inr (f # fs)))"

definition MultiReader_fetch :: "node list \<Rightarrow> int \<Rightarrow> int \<Rightarrow> exn + (exn + fetched) option" where
  "MultiReader_fetch nodes startTime endTime =
     (case start_fetches nodes startTime endTime of
        Inl e \<Rightarrow> Inl e
      | Inr fetches \<Rightarrow> Inr (merge_results fetches))"

subsection \<open>\<^verbatim>\<open>CeresReader.fetch\<close> and \<^verbatim>\<open>WhisperReader.fetch\<close> (lines 138--199)\<close>

text \<open>
  The libraries are outside the module: the value read from the archive and the
  outcome of \<^verbatim>\<open>CarbonLink.query\<close> are parameters. A query raises, or replies with a
  list of points or with a dictionary (given by its items).
\<close>

record ceres_data =
  startTime :: int
  endTime :: int
  timeStep :: int
  data_values :: "sample list"

datatype cache_reply = PointList "cachepoint list" | PointDict "cachepoint list"

record whisper_info =
  aggregationMethod :: string
  archives :: "int list"

text \<open>
  Ceres passes the reply on as it is; looping over a dictionary yields its keys, and
  unpacking a key as a pair raises \<^verbatim>\<open>TypeError\<close>.
\<close>

definition CeresReader_fetch :: "ceres_data \<Rightarrow> exn + cache_reply \<Rightarrow> exn + fetched" where
  "CeresReader_fetch data query =
     (let time_info = (startTime data, endTime data, timeStep data);
          vals = data_values data
      in case (case query of
                 Inl e \<Rightarrow> Inr []
               | Inr (PointList ps) \<Rightarrow> Inr ps
               | Inr (PointDict items) \<Rightarrow> if items = [] then Inr [] else Inl TypeError) of
           Inl e \<Rightarrow> Inl e
         | Inr cached_datapoints \<Rightarrow>
             (case merge_with_cache cached_datapoints (startTime data) (timeStep data) vals None of
                Inl e \<Rightarrow> Inl e
              | Inr vals' \<Rightarrow> Inr (time_info, vals')))"

text \<open>
  \<open>archives\<close> holds \<^verbatim>\<open>secondsPerPoint\<close> of each archive; \<^verbatim>\<open>min\<close> of an empty list
  raises \<^verbatim>\<open>ValueError\<close>, and \<open>lowest_step\<close> is not used afterwards.
\<close>

definition WhisperReader_fetch ::
  "fetched option \<Rightarrow> whisper_info \<Rightarrow> exn + cache_reply \<Rightarrow> exn + fetched option" where
  "WhisperReader_fetch data meta_info query =
     (case data of
        None \<Rightarrow> Inr None
      | Some (time_info, vals) \<Rightarrow>
          (case time_info of (start, end_time, step) \<Rightarrow>
             if archives meta_info = [] then Inl ValueError
             else
               (let cached_datapoints =
                      (case query of
                         Inl e \<Rightarrow> []
                       | Inr (PointList ps) \<Rightarrow> ps
                       | Inr (PointDict items) \<Rightarrow> items)
                in case merge_with_cache cached_datapoints start step vals
                          (Some (aggregationMethod meta_info)) of
                     Inl e \<Rightarrow> Inl e
                   | Inr vals' \<Rightarrow> Inr (Some (time_info, vals')))))"

subsection \<open>\<^verbatim>\<open>RRDReader.fetch\<close> (lines 242--254)\<close>

text \<open>
  The reply of \<^verbatim>\<open>rrdtool.fetch\<close> is a parameter: \<open>(timeInfo, columns, rows)\<close>.
  \<^verbatim>\<open>list(columns).index(name)\<close> is the first position of the name and raises
  \<^verbatim>\<open>ValueError\<close> when it is absent; \<^verbatim>\<open>rows.pop()\<close> removes the last row and raises
  \<^verbatim>\<open>IndexError\<close> on an empty list. The generator over the remaining rows is given
  by the list it yields.
\<close>

fun index_of :: "'a list \<Rightarrow> 'a \<Rightarrow> nat option" where
  "index_of [] x = None"
| "index_of (y # ys) x =
     (if y = x then Some 0 else (case index_of ys x of None \<Rightarrow> None | Some i \<Rightarrow> Some (Suc i)))"

definition pop :: "'a list \<Rightarrow> exn + 'a list" where
  "pop rows = (if rows = [] then Inl IndexError else Inr (butlast rows))"

fun column :: "int \<Rightarrow> 'a list list \<Rightarrow> exn + 'a list" where
  "column colIndex [] = Inr []"
| "column colIndex (row # rows) =
     (case getitem row colIndex of
        Inl e \<Rightarrow> Inl e
      | Inr v \<Rightarrow> (case column colIndex rows of Inl e \<Rightarrow> Inl e | Inr vs \<Rightarrow> Inr (v # vs)))"

definition RRDReader_fetch ::
  "time_info \<Rightarrow> string list \<Rightarrow> sample list list \<Rightarrow> string \<Rightarrow> exn + (time_info \<times> sample list)" where
  "RRDReader_fetch timeInfo columns rows datasource_name =
     (case index_of columns datasource_name of
        None \<Rightarrow> Inl ValueError
      | Some colIndex \<Rightarrow>
          (case pop rows of
             Inl e \<Rightarrow> Inl e
           | Inr rows' \<Rightarrow>
               (case column (int colIndex) rows' of
                  Inl e \<Rightarrow> Inl e
                | Inr vals \<Rightarrow> Inr (timeInfo, vals))))"

section \<open>Consolidation\<close>

lemma py_sum_eq: "py_sum us = sum_list us"
proof -
  have "foldl (+) a us = a + sum_list us" for a :: real
    by (induction us arbitrary: a) simp_all
  then show ?thesis by (simp add: py_sum_def)
qed

lemma foldl_max_eq: "foldl (\<lambda>m x. if x > m then x else m) a us = Max (insert a (set us))"
  for a :: real
proof (induction us arbitrary: a)
  case Nil
  show ?case by simp
next
  case (Cons u us)
  have "(if a < u then u else a) = max a u" by (simp add: max_def)
  moreover have "Max (insert (max a u) (set us)) = Max (insert a (insert u (set us)))"
    by (cases "set us = {}") (simp_all add: max.assoc)
  ultimately show ?case using Cons.IH by simp
qed

lemma foldl_min_eq: "foldl (\<lambda>m x. if x < m then x else m) a us = Min (insert a (set us))"
  for a :: real
proof (induction us arbitrary: a)
  case Nil
  show ?case by simp
next
  case (Cons u us)
  have "(if u < a then u else a) = min a u" by (simp add: min_def)
  moreover have "Min (insert (min a u) (set us)) = Min (insert a (insert u (set us)))"
    by (cases "set us = {}") (simp_all add: min.assoc)
  ultimately show ?case using Cons.IH by simp
qed

lemma py_max_eq: "us \<noteq> [] \<Longrightarrow> py_max us = Max (set us)"
  by (cases us) (simp_all add: foldl_max_eq)

lemma py_min_eq: "us \<noteq> [] \<Longrightarrow> py_min us = Min (set us)"
  by (cases us) (simp_all add: foldl_min_eq)

lemma usable_of_eq: "usable_of vs = [x. Some x \<leftarrow> vs]"
  by (induction vs) (auto simp: usable_of_def)

lemma usable_of_Nil_iff: "usable_of vs = [] \<longleftrightarrow> (\<forall>v\<in>set vs. v = None)"
  by (induction vs) (auto simp: usable_of_def)

text \<open>
  Claim C7. For the names \<open>sum\<close>, \<open>average\<close>, \<open>max\<close> and \<open>min\<close>, \<open>consolidate\<close> drops the
  missing values and returns the sum, the arithmetic mean, the greatest and the least
  of the values that are left; when every input is missing (the empty list included)
  it returns missing; \<open>consolidate('average', [2,4,6])\<close> is 4,
  \<open>consolidate('sum', [])\<close> is missing, and \<open>consolidate('bogus', [1])\<close> raises the
  invalid-consolidation-function error.
\<close>

theorem consolidate_recognized:
  "consolidate ''sum'' vs =
     Inr (if [x. Some x \<leftarrow> vs] = [] then None else Some (sum_list [x. Some x \<leftarrow> vs]))
   \<and> consolidate ''average'' vs =
     Inr (if [x. Some x \<leftarrow> vs] = [] then None
          else Some (sum_list [x. Some x \<leftarrow> vs] / real (length [x. Some x \<leftarrow> vs])))
   \<and> consolidate ''max'' vs =
     Inr (if [x. Some x \<leftarrow> vs] = [] then None else Some (Max (set [x. Some x \<leftarrow> vs])))
   \<and> consolidate ''min'' vs =
     Inr (if [x. Some x \<leftarrow> vs] = [] then None else Some (Min (set [x. Some x \<leftarrow> vs])))
   \<and> ((\<forall>v\<in>set vs. v = None) \<longrightarrow> consolidate func vs = Inr None)
   \<and> consolidate ''average'' [Some 2, Some 4, Some 6] = Inr (Some 4)
   \<and> consolidate ''sum'' [] = Inr None
   \<and> consolidate ''bogus'' [Some 1] = Inl (InvalidConsolidationFunction ''bogus'')"
proof -
  let ?us = "[x. Some x \<leftarrow> vs]"
  have u: "usable_of vs = ?us" by (rule usable_of_eq)
  have s: "consolidate ''sum'' vs = Inr (if ?us = [] then None else Some (sum_list ?us))"
    unfolding consolidate_def Let_def u by (simp add: py_sum_eq)
  have a: "consolidate ''average'' vs =
      Inr (if ?us = [] then None else Some (sum_list ?us / real (length ?us)))"
    unfolding consolidate_def Let_def u by (simp add: py_sum_eq)
  have mx: "consolidate ''max'' vs = Inr (if ?us = [] then None else Some (Max (set ?us)))"
    unfolding consolidate_def Let_def u by (simp add: py_max_eq)
  have mn: "consolidate ''min'' vs = Inr (if ?us = [] then None else Some (Min (set ?us)))"
    unfolding consolidate_def Let_def u by (simp add: py_min_eq)
  have none: "(\<forall>v\<in>set vs. v = None) \<longrightarrow> consolidate func vs = Inr None"
    by (simp add: consolidate_def Let_def usable_of_Nil_iff)
  have e1: "consolidate ''average'' [Some 2, Some 4, Some 6] = Inr (Some 4)"
    by (simp add: consolidate_def usable_of_def py_sum_def)
  have e2: "consolidate ''sum'' [] = Inr None"
    by (simp add: consolidate_def usable_of_def)
  have e3: "consolidate ''bogus'' [Some 1] = Inl (InvalidConsolidationFunction ''bogus'')"
    by (simp add: consolidate_def usable_of_def)
  from s a mx mn none e1 e2 e3 show ?thesis by blast
qed

theorem consolidate_recognized_witness:
  "consolidate ''max'' [Some 3, None, Some 7, Some 5] = Inr (Some 7)
   \<and> consolidate ''min'' [None, Some 3, Some 7] = Inr (Some 3)
   \<and> consolidate ''sum'' [Some 3, None, Some 7] = Inr (Some 10)
   \<and> consolidate ''average'' [None, None] = Inr None
   \<and> consolidate ''bogus'' [None, None] = Inr None"
proof -
  have all_none: "\<forall>v\<in>set [None, None :: sample]. v = None" by simp
  have "consolidate ''max'' [Some 3, None, Some 7, Some 5] = Inr (Some 7)"
    using consolidate_recognized [of "[Some 3, None, Some 7, Some 5]"] by simp
  moreover have "consolidate ''min'' [None, Some 3, Some 7] = Inr (Some 3)"
    using consolidate_recognized [of "[None, Some 3, Some 7]"] by simp
  moreover have "consolidate ''sum'' [Some 3, None, Some 7] = Inr (Some 10)"
    using consolidate_recognized [of "[Some 3, None, Some 7]"] by simp
  moreover have "consolidate ''average'' [None, None] = Inr None"
    using consolidate_recognized [of "[None, None]" "''average''"] all_none by blast
  moreover have "consolidate ''bogus'' [None, None] = Inr None"
    using consolidate_recognized [of "[None, None]" "''bogus''"] all_none by blast
  ultimately show ?thesis by blast
qed

text \<open>
  Claim C10. The name is looked at only after the missing values are dropped: under
  a name that is none of \<open>sum\<close>, \<open>average\<close>, \<open>max\<close>, \<open>min\<close>, a list whose values are all
  missing (the empty list included) gives missing, and the error is raised exactly
  when some value is present.
\<close>

theorem consolidate_unknown_name:
  assumes "func \<notin> {''sum'', ''average'', ''max'', ''min''}"
  shows "consolidate func vs =
           (if \<forall>v\<in>set vs. v = None then Inr None
            else Inl (InvalidConsolidationFunction func))"
  using assms by (simp add: consolidate_def Let_def usable_of_Nil_iff)

theorem consolidate_unknown_name_witness:
  "consolidate ''bogus'' [] = Inr None
   \<and> consolidate ''bogus'' [None, None] = Inr None
   \<and> consolidate ''bogus'' [None, Some 1] = Inl (InvalidConsolidationFunction ''bogus'')"
proof -
  have n: "''bogus'' \<notin> {''sum'', ''average'', ''max'', ''min''}" by simp
  show ?thesis
    using consolidate_unknown_name [OF n, of "[]"]
      consolidate_unknown_name [OF n, of "[None, None]"]
      consolidate_unknown_name [OF n, of "[None, Some 1]"]
    by simp
qed

section \<open>Cache fusion\<close>

subsection \<open>The conversion to an index\<close>

lemma py_int_of_int [simp]: "py_int (of_int n) = n"
  by (simp add: py_int_def)

lemma py_int_nonneg: "0 \<le> x \<Longrightarrow> py_int x = \<lfloor>x\<rfloor>"
  by (simp add: py_int_def)


lemma py_int_just_below_zero: "- 1 < x \<Longrightarrow> x < 0 \<Longrightarrow> py_int x = 0"
  unfolding py_int_def by (simp add: ceiling_eq_iff)

text \<open>
  From the start of the window on, and on every whole timestamp, the index the code
  computes is the floor of \<open>(timestamp - start) / step\<close>.
\<close>

lemma index_is_floor:
  assumes "0 < step" and "of_int start \<le> t"
  shows "py_int (t - of_int start) div step = \<lfloor>(t - of_int start) / of_int step\<rfloor>"
proof -
  from assms(2) have "py_int (t - of_int start) = \<lfloor>t - of_int start\<rfloor>"
    by (simp add: py_int_nonneg)
  moreover have "\<lfloor>(t - of_int start) / real_of_int step\<rfloor> = \<lfloor>t - of_int start\<rfloor> div step"
    using assms(1) by (intro floor_divide_real_eq_div) simp
  ultimately show ?thesis by simp
qed

lemma index_is_floor_whole:
  assumes "step \<noteq> 0"
  shows "py_int (of_int n - of_int start) div step
       = \<lfloor>(of_int n - of_int start) / real_of_int step\<rfloor>"
proof -
  have "py_int (real_of_int n - of_int start) = n - start"
    using py_int_of_int [of "n - start"] by simp
  moreover have "\<lfloor>real_of_int (n - start) / real_of_int step\<rfloor> = (n - start) div step"
    by (rule floor_divide_of_int_eq)
  ultimately show ?thesis by simp
qed


subsection \<open>The applying loop\<close>

lemma apply_point_length: "length (apply_point start step vals p) = length vals"
  by (auto simp: apply_point_def floordiv_def setitem_def split: sum.splits if_splits)

lemma apply_loop_length: "length (apply_loop start step vals ps) = length vals"
  unfolding apply_loop_def
  by (induction ps arbitrary: vals) (simp_all add: apply_point_length)

lemma apply_point_nth:
  "j < length vals \<Longrightarrow> apply_point start step vals p ! j =
     (if step \<noteq> 0 \<and> py_int (fst p - of_int start) div step = int j then snd p else vals ! j)"
  by (auto simp: apply_point_def floordiv_def setitem_def nth_list_update split: sum.splits if_splits)

lemma apply_loop_snoc:
  "apply_loop start step vals (ps @ [p]) = apply_point start step (apply_loop start step vals ps) p"
  by (simp add: apply_loop_def)

lemma case_snoc_last: "(case xs @ [p] of [] \<Rightarrow> a | hits \<Rightarrow> f (last hits)) = f p"
  by (cases xs) simp_all

lemma apply_loop_nth:
  "j < length vals \<Longrightarrow> apply_loop start step vals ps ! j =
     (case filter (\<lambda>p. step \<noteq> 0 \<and> py_int (fst p - of_int start) div step = int j) ps of
        [] \<Rightarrow> vals ! j
      | hits \<Rightarrow> snd (last hits))"
proof (induction ps rule: rev_induct)
  case Nil
  then show ?case by (simp add: apply_loop_def)
next
  case (snoc p ps)
  define P where "P = (\<lambda>p :: cachepoint. step \<noteq> 0 \<and> py_int (fst p - of_int start) div step = int j)"
  have len: "j < length (apply_loop start step vals ps)"
    using snoc.prems by (simp add: apply_loop_length)
  have one: "apply_loop start step vals (ps @ [p]) ! j =
      (if P p then snd p else apply_loop start step vals ps ! j)"
    unfolding apply_loop_snoc P_def by (rule apply_point_nth [OF len])
  have ih: "apply_loop start step vals ps ! j =
      (case filter P ps of [] \<Rightarrow> vals ! j | hits \<Rightarrow> snd (last hits))"
    unfolding P_def by (rule snoc.IH [OF snoc.prems])
  have "apply_loop start step vals (ps @ [p]) ! j =
      (case filter P (ps @ [p]) of [] \<Rightarrow> vals ! j | hits \<Rightarrow> snd (last hits))"
  proof (cases "P p")
    case True
    then show ?thesis by (simp add: one case_snoc_last)
  next
    case False
    then show ?thesis by (simp add: one ih)
  qed
  then show ?case unfolding P_def .
qed



lemma merge_with_cache_direct:
  "merge_with_cache ps start step vals None = Inr (apply_loop start step vals ps)"
  by (simp add: merge_with_cache_def)

text \<open>
  Direct mode, slot by slot: the last point, in iteration order, whose computed index
  is \<open>j\<close> decides slot \<open>j\<close>; a slot with no such point keeps the archive's value.
\<close>

lemma direct_mode_slots:
  "\<exists>r. merge_with_cache ps start step vals None = Inr r \<and> length r = length vals \<and>
      (\<forall>j<length vals. r ! j =
         (case filter (\<lambda>p. step \<noteq> 0 \<and> py_int (fst p - of_int start) div step = int j) ps of
            [] \<Rightarrow> vals ! j
          | hits \<Rightarrow> snd (last hits)))"
  using apply_loop_nth [of _ vals start step ps]
  by (simp add: merge_with_cache_direct apply_loop_length)

text \<open>
  Where every point is at or after the start of the window, or has a whole timestamp,
  the computed index is the index \<open>floor((timestamp - start) / step)\<close>.
\<close>

lemma direct_mode_floor:
  assumes "0 < step"
    and "\<forall>p\<in>set ps. of_int start \<le> fst p \<or> (\<exists>n. fst p = of_int n)"
    and "j < length vals"
  shows "apply_loop start step vals ps ! j =
         (case filter (\<lambda>p. \<lfloor>(fst p - of_int start) / of_int step\<rfloor> = int j) ps of
            [] \<Rightarrow> vals ! j
          | hits \<Rightarrow> snd (last hits))"
proof -
  have idx: "py_int (fst p - of_int start) div step = \<lfloor>(fst p - of_int start) / of_int step\<rfloor>"
    if "p \<in> set ps" for p
  proof -
    from assms(2) that consider "of_int start \<le> fst p" | n where "fst p = of_int n" by blast
    then show ?thesis
    proof cases
      case 1
      then show ?thesis by (rule index_is_floor [OF assms(1)])
    next
      case 2
      with assms(1) index_is_floor_whole [of step n start] show ?thesis by simp
    qed
  qed
  have "filter (\<lambda>p. step \<noteq> 0 \<and> py_int (fst p - of_int start) div step = int j) ps
      = filter (\<lambda>p. \<lfloor>(fst p - of_int start) / of_int step\<rfloor> = int j) ps"
    using assms(1) idx by (intro filter_cong) auto
  then show ?thesis by (simp only: apply_loop_nth [OF assms(3)])
qed

lemma direct_mode_spec_example:
  "merge_with_cache [(0, Some 1)] 0 60 [None, None, None, None, None] None
     = Inr [Some 1, None, None, None, None]"
  by (simp add: merge_with_cache_def apply_loop_def apply_point_def floordiv_def setitem_def
      py_int_def)

text \<open>
  Claim C4. In direct mode a cache point with timestamp \<open>t\<close> belongs to the slot
  \<open>floor((t - start) / step)\<close> and is written only if that index is at least zero and
  inside the series, the last point of a slot winning. The code converts first and
  divides after, \<open>int(t - start) / step\<close>, and the conversion rounds toward zero: for
  a point less than one second before the start the difference becomes 0 and the
  index 0. Below, the series has five missing slots, \<open>start = 0\<close>, \<open>step = 60\<close>, and the
  only point is at \<open>-0.5\<close>: its slot index is \<open>floor(-0.5 / 60) = -1\<close>, so by the claim
  no slot changes, and the code writes its value 9 into slot 0. (For points at or
  after the start and for whole timestamps the code does what the claim says:
  \<open>direct_mode_slots\<close>, \<open>direct_mode_floor\<close>, \<open>direct_mode_spec_example\<close>.)
\<close>

theorem point_before_start_hits_slot_0:
  "merge_with_cache [(- 1 / 2, Some 9)] 0 60 [None, None, None, None, None] None
     = Inr [Some 9, None, None, None, None]
   \<and> \<lfloor>(- 1 / 2 - real_of_int 0) / real_of_int 60\<rfloor> = - 1
   \<and> slot_of 60 (- 1 / 2) = - 60"
proof -
  have a: "merge_with_cache [(- 1 / 2, Some 9)] 0 60 [None, None, None, None, None] None
     = Inr [Some 9, None, None, None, None]"
    by (simp add: merge_with_cache_def apply_loop_def apply_point_def floordiv_def setitem_def
        py_int_def ceiling_eq_iff)
  have b: "\<lfloor>(- 1 / 2 - real_of_int 0) / real_of_int 60\<rfloor> = - 1"
    by (simp add: floor_eq_iff)
  have c: "slot_of 60 (- 1 / 2) = - 60"
  proof -
    have "\<lfloor>(- 1 / 2) / real_of_int 60\<rfloor> = - 1" by (simp add: floor_eq_iff)
    then show ?thesis by (simp add: slot_of_def real_mod_def)
  qed
  show ?thesis by (intro conjI a b c)
qed

subsection \<open>The grouping loop\<close>

lemma group_loop_foldl:
  "step \<noteq> 0 \<Longrightarrow>
   group_loop step d ps = Inr (foldl (\<lambda>d p. dict_add d (slot_of step (fst p)) (snd p)) d ps)"
proof (induction ps arbitrary: d)
  case Nil
  show ?case by simp
next
  case (Cons p ps)
  obtain t v where p: "p = (t, v)" by (cases p)
  show ?case using Cons by (simp add: p pymod_def slot_of_def)
qed

lemma dict_add_map:
  "distinct ks \<Longrightarrow>
   dict_add (map (\<lambda>k. (k, g k)) ks) k0 v =
     (if k0 \<in> set ks then map (\<lambda>k. (k, if k = k0 then g k @ [v] else g k)) ks
      else map (\<lambda>k. (k, g k)) ks @ [(k0, [v])])"
proof (induction ks)
  case Nil
  show ?case by simp
next
  case (Cons k ks)
  show ?case
  proof (cases "k = k0")
    case True
    with Cons.prems have "k0 \<notin> set ks" by simp
    then have "map (\<lambda>k. (k, if k = k0 then g k @ [v] else g k)) ks = map (\<lambda>k. (k, g k)) ks"
      by (intro map_cong) auto
    with True show ?thesis by simp
  next
    case False
    with Cons show ?thesis by simp
  qed
qed

lemma slot_groups_snoc:
  "slot_groups step (ps @ [p]) = dict_add (slot_groups step ps) (slot_of step (fst p)) (snd p)"
proof -
  define key where "key = (\<lambda>q :: cachepoint. slot_of step (fst q))"
  define ks where "ks = rev (remdups (rev (map key ps)))"
  define g where "g = (\<lambda>k. map snd (filter (\<lambda>q. key q = k) ps))"
  have dist: "distinct ks" and set_ks: "set ks = key ` set ps"
    by (simp_all add: ks_def)
  have old: "slot_groups step ps = map (\<lambda>k. (k, g k)) ks"
    by (simp add: slot_groups_def ks_def g_def key_def)
  have ks': "rev (remdups (rev (map key (ps @ [p])))) = (if key p \<in> set ks then ks else ks @ [key p])"
    by (simp add: ks_def)
  have new: "slot_groups step (ps @ [p]) =
      map (\<lambda>k. (k, g k @ (if key p = k then [snd p] else [])))
        (if key p \<in> set ks then ks else ks @ [key p])"
    unfolding ks' [symmetric] by (simp add: slot_groups_def g_def key_def)
  have gnil: "g (key p) = []" if "key p \<notin> set ks"
  proof -
    have "\<forall>q\<in>set ps. key q \<noteq> key p"
      using that unfolding set_ks by (metis imageI)
    then show ?thesis by (simp add: g_def filter_empty_conv)
  qed
  have eq: "map (\<lambda>k. (k, g k @ (if key p = k then [snd p] else []))) ks
      = map (\<lambda>k. (k, if k = key p then g k @ [snd p] else g k)) ks"
    by (intro map_cong) auto
  have kp: "slot_of step (fst p) = key p" by (simp add: key_def)
  show ?thesis
  proof (cases "key p \<in> set ks")
    case True
    have "dict_add (map (\<lambda>k. (k, g k)) ks) (key p) (snd p)
        = map (\<lambda>k. (k, if k = key p then g k @ [snd p] else g k)) ks"
      using dict_add_map [OF dist, of g "key p" "snd p"] True by simp
    then show ?thesis unfolding new old kp using True eq by simp
  next
    case False
    have same: "map (\<lambda>k. (k, g k @ (if key p = k then [snd p] else []))) ks = map (\<lambda>k. (k, g k)) ks"
      using False by (intro map_cong) auto
    have "dict_add (map (\<lambda>k. (k, g k)) ks) (key p) (snd p)
        = map (\<lambda>k. (k, g k)) ks @ [(key p, [snd p])]"
      using dict_add_map [OF dist, of g "key p" "snd p"] False by simp
    then show ?thesis unfolding new old kp using False same gnil [OF False] by simp
  qed
qed

lemma foldl_dict_add_groups:
  "foldl (\<lambda>d p. dict_add d (slot_of step (fst p)) (snd p)) [] ps = slot_groups step ps"
proof (induction ps rule: rev_induct)
  case Nil
  show ?case by (simp add: slot_groups_def)
next
  case (snoc p ps)
  then show ?case by (simp add: slot_groups_snoc)
qed

lemma group_loop_groups: "step \<noteq> 0 \<Longrightarrow> group_loop step [] ps = Inr (slot_groups step ps)"
  by (simp add: group_loop_foldl foldl_dict_add_groups)

lemma slot_groups_distinct: "distinct (map fst (slot_groups step ps))"
  by (simp add: slot_groups_def comp_def)

lemma consolidate_error: "consolidate f vs = Inl e \<Longrightarrow> e = InvalidConsolidationFunction f"
  by (auto simp: consolidate_def Let_def split: if_splits)

lemma consolidate_loop_Inl_iff:
  "consolidate_loop f d = Inl e \<longleftrightarrow>
     e = InvalidConsolidationFunction f \<and> (\<exists>g\<in>set d. \<exists>e'. consolidate f (snd g) = Inl e')"
proof (induction d)
  case Nil
  show ?case by simp
next
  case (Cons kv d)
  obtain k vs where kv: "kv = (k, vs)" by (cases kv)
  show ?case
  proof (cases "consolidate f vs")
    case (Inl e')
    with consolidate_error [OF Inl] show ?thesis by (auto simp: kv)
  next
    case (Inr v)
    show ?thesis
    proof (cases "consolidate_loop f d")
      case (Inl e')
      with Inr Cons show ?thesis by (auto simp: kv)
    next
      case r: (Inr rest)
      with Inr Cons show ?thesis by (auto simp: kv)
    qed
  qed
qed

subsection \<open>Length and failure\<close>












subsection \<open>Consolidated mode\<close>

lemma consolidate_loop_Inr_iff:
  "consolidate_loop f d = Inr pairs \<longleftrightarrow>
     list_all2 (\<lambda>g c. fst c = fst g \<and> consolidate f (snd g) = Inr (snd c)) d pairs"
proof (induction d arbitrary: pairs)
  case Nil
  show ?case by auto
next
  case (Cons kv d)
  obtain k vs where kv: "kv = (k, vs)" by (cases kv)
  show ?case
  proof (cases pairs)
    case Nil
    then show ?thesis by (simp add: kv split: sum.splits)
  next
    case (Cons c cs)
    obtain k' v' where c: "c = (k', v')" by (cases c)
    show ?thesis
      unfolding Cons c kv using Cons.IH [of cs]
      by (auto split: sum.splits)
  qed
qed


text \<open>
  Claim C6. Consolidated mode (a consolidation function is given, the step is not
  zero). The first loop builds exactly the groups of the specification: the points
  grouped by \<open>timestamp - (timestamp mod step)\<close>, one group per slot. The second loop
  succeeds with a list of pairs exactly when the pairs are, group by group, the
  group's slot timestamp and the value \<open>consolidate\<close> returns for the group's values.
  The result of the call is the result of direct mode on these pairs, and the error
  of \<open>consolidate\<close> if there is one.
\<close>

theorem cache_fusion_consolidated:
  assumes "step \<noteq> 0" and "f \<noteq> []"
  shows "group_loop step [] ps = Inr (slot_groups step ps)
     \<and> distinct (map fst (slot_groups step ps))
     \<and> (consolidate_loop f d = Inr pairs \<longleftrightarrow>
          list_all2 (\<lambda>g c. fst c = fst g \<and> consolidate f (snd g) = Inr (snd c)) d pairs)
     \<and> merge_with_cache ps start step vals (Some f) =
          (case consolidate_loop f (slot_groups step ps) of
             Inl e \<Rightarrow> Inl e
           | Inr consolidated \<Rightarrow> merge_with_cache consolidated start step vals None)"
proof -
  note a = group_loop_groups [OF assms(1), of ps]
  note b = slot_groups_distinct [of step ps]
  note c = consolidate_loop_Inr_iff [of f d pairs]
  have e: "merge_with_cache ps start step vals (Some f) =
          (case consolidate_loop f (slot_groups step ps) of
             Inl e \<Rightarrow> Inl e
           | Inr consolidated \<Rightarrow> merge_with_cache consolidated start step vals None)"
    using assms(2) by (simp add: merge_with_cache_def a split: sum.splits)
  show ?thesis by (intro conjI a b c e)
qed

theorem cache_fusion_consolidated_witness:
  "slot_groups 60 [(70, Some 2), (10, Some 1), (100, Some 4), (61, None)]
      = [(60, [Some 2, Some 4, None]), (0, [Some 1])]
   \<and> merge_with_cache [(70, Some 2), (10, Some 1), (100, Some 4), (61, None)] 0 60
        [None, None, None] (Some ''average'') = Inr [Some 1, Some 3, None]"
proof -
  let ?ps = "[(70, Some 2), (10, Some 1), (100, Some 4), (61, None)] :: cachepoint list"
  have s: "(60::int) \<noteq> 0" and n: "''average'' \<noteq> []" by simp_all
  have g: "slot_groups 60 ?ps = [(60, [Some 2, Some 4, None]), (0, [Some 1])]"
    by (simp add: slot_groups_def slot_of_def real_mod_def)
  have c: "consolidate_loop ''average'' [(60, [Some 2, Some 4, None]), (0, [Some 1])]
      = Inr [(60, Some 3), (0, Some 1)]"
    by (simp add: consolidate_def usable_of_def py_sum_def)
  have m: "merge_with_cache [(60, Some 3), (0, Some 1)] 0 60 [None, None, None] None
      = Inr [Some 1, Some 3, None]"
    by (simp add: merge_with_cache_def apply_loop_def apply_point_def floordiv_def setitem_def
        py_int_def)
  from cache_fusion_consolidated [OF s n, of ?ps _ _ 0 "[None, None, None]",
      THEN conjunct2, THEN conjunct2, THEN conjunct2]
  have "merge_with_cache ?ps 0 60 [None, None, None] (Some ''average'') = Inr [Some 1, Some 3, None]"
    unfolding g c using m by simp
  with g show ?thesis by (intro conjI)
qed

text \<open>
  The order in which a Python 2 dictionary yields its keys is not the order of
  insertion. It does not matter here: the groups have distinct keys, all multiples of
  the step, so no two of them map to the same slot, and a failure of \<open>consolidate\<close> is
  the same error whichever group meets it first. For every list \<open>d'\<close> of the same
  groups in another order the outcome is the one computed from \<open>slot_groups\<close>.
\<close>

lemma consolidate_loop_Inr_map:
  "consolidate_loop f d = Inr c \<Longrightarrow>
     c = map (\<lambda>g. (fst g, case consolidate f (snd g) of Inl e \<Rightarrow> None | Inr v \<Rightarrow> v)) d"
proof (induction d arbitrary: c)
  case Nil
  then show ?case by simp
next
  case (Cons kv d)
  obtain k vs where kv: "kv = (k, vs)" by (cases kv)
  from Cons.prems show ?case
    by (auto simp: kv split: sum.splits dest: Cons.IH)
qed

lemma at_most_one:
  assumes "distinct xs" "\<forall>a\<in>set xs. \<forall>b\<in>set xs. a = b"
  shows "xs = [] \<or> xs = [hd xs]"
proof (cases xs)
  case Nil
  then show ?thesis by simp
next
  case (Cons x xs')
  show ?thesis
  proof (cases xs')
    case Nil
    with Cons show ?thesis by simp
  next
    case (Cons y zs)
    with \<open>xs = x # xs'\<close> assms(1) have "x \<noteq> y" by simp
    moreover have "x \<in> set xs" "y \<in> set xs"
      using Cons \<open>xs = x # xs'\<close> by simp_all
    then have "x = y" using assms(2) by blast
    ultimately show ?thesis by blast
  qed
qed

lemma single_hit_equal:
  assumes "distinct xs" "distinct ys" "set xs = set ys" "\<forall>a\<in>set xs. \<forall>b\<in>set xs. a = b"
  shows "xs = ys"
proof -
  from assms(3,4) have all_ys: "\<forall>a\<in>set ys. \<forall>b\<in>set ys. a = b" by simp
  note x = at_most_one [OF assms(1,4)] and y = at_most_one [OF assms(2) all_ys]
  show ?thesis
  proof (cases "xs = []")
    case True
    with assms(3) show ?thesis by simp
  next
    case False
    with x have xs: "xs = [hd xs]" by blast
    from False assms(3) have "ys \<noteq> []" by auto
    with y have ys: "ys = [hd ys]" by blast
    have "hd xs \<in> set xs" using False by simp
    moreover have "hd ys \<in> set xs" using \<open>ys \<noteq> []\<close> assms(3) by simp
    ultimately have h: "hd xs = hd ys" using assms(4) by blast
    note xs
    also have "[hd xs] = [hd ys]" by (simp only: h)
    also have "[hd ys] = ys" by (rule ys [symmetric])
    finally show ?thesis .
  qed
qed

lemma slot_index_inj:
  fixes step :: int
  assumes "step \<noteq> 0"
    and "py_int (of_int (step * a) - of_int start) div step
       = py_int (of_int (step * b) - of_int start) div step"
  shows "a = b"
proof -
  have pa: "py_int (real_of_int (step * a) - real_of_int start) = step * a - start"
    unfolding of_int_diff [symmetric] by (rule py_int_of_int)
  have pb: "py_int (real_of_int (step * b) - real_of_int start) = step * b - start"
    unfolding of_int_diff [symmetric] by (rule py_int_of_int)
  have ea: "(step * a - start) div step = a + (- start) div step"
    unfolding diff_conv_add_uminus by (rule div_mult_self4 [OF assms(1)])
  have eb: "(step * b - start) div step = b + (- start) div step"
    unfolding diff_conv_add_uminus by (rule div_mult_self4 [OF assms(1)])
  from assms(2) have "(step * a - start) div step = (step * b - start) div step"
    unfolding pa pb .
  then have "a + (- start) div step = b + (- start) div step"
    unfolding ea eb .
  then show ?thesis by (rule add_right_imp_eq)
qed

lemma apply_loop_order:
  assumes step: "step \<noteq> 0"
    and dist: "distinct (map fst c)" "distinct (map fst c')"
    and same: "set c = set c'"
    and mult: "\<forall>p\<in>set c. \<exists>m. fst p = of_int (step * m)"
  shows "apply_loop start step vals c = apply_loop start step vals c'"
proof (rule nth_equalityI)
  show "length (apply_loop start step vals c) = length (apply_loop start step vals c')"
    by (simp add: apply_loop_length)
next
  fix j assume "j < length (apply_loop start step vals c)"
  then have j: "j < length vals" by (simp add: apply_loop_length)
  define P where "P = (\<lambda>p :: cachepoint. step \<noteq> 0 \<and> py_int (fst p - of_int start) div step = int j)"
  have one: "x = y" if "x \<in> set (filter P c)" "y \<in> set (filter P c)" for x y
  proof -
    from that have xy: "x \<in> set c" "y \<in> set c" "P x" "P y" by simp_all
    from xy(1,2) mult obtain a b where ab: "fst x = of_int (step * a)" "fst y = of_int (step * b)"
      by blast
    from xy(3,4) have "py_int (of_int (step * a) - of_int start) div step
        = py_int (of_int (step * b) - of_int start) div step"
      by (simp add: P_def ab)
    from slot_index_inj [OF step this] ab have "fst x = fst y" by simp
    moreover from dist(1) have "inj_on fst (set c)" by (simp add: distinct_map)
    ultimately show ?thesis using xy(1,2) by (blast dest: inj_onD)
  qed
  have "filter P c = filter P c'"
  proof (rule single_hit_equal)
    show "distinct (filter P c)" using dist(1) by (simp add: distinct_map)
    show "distinct (filter P c')" using dist(2) by (simp add: distinct_map)
    show "set (filter P c) = set (filter P c')" using same by simp
    show "\<forall>a\<in>set (filter P c). \<forall>b\<in>set (filter P c). a = b" using one by blast
  qed
  then have "filter (\<lambda>p. step \<noteq> 0 \<and> py_int (fst p - of_int start) div step = int j) c
      = filter (\<lambda>p. step \<noteq> 0 \<and> py_int (fst p - of_int start) div step = int j) c'"
    unfolding P_def .
  then show "apply_loop start step vals c ! j = apply_loop start step vals c' ! j"
    by (simp only: apply_loop_nth [OF j])
qed

lemma slot_of_multiple: "\<exists>m. slot_of step t = of_int (step * m)"
proof
  show "slot_of step t = of_int (step * \<lfloor>t / of_int step\<rfloor>)"
    by (simp add: slot_of_def real_mod_def)
qed

lemma slot_groups_keys_multiple:
  "\<forall>g\<in>set (slot_groups step ps). \<exists>m. fst g = of_int (step * m)"
proof
  fix g assume "g \<in> set (slot_groups step ps)"
  then obtain q where "fst g = slot_of step (fst q)" by (auto simp: slot_groups_def)
  with slot_of_multiple [of step "fst q"] show "\<exists>m. fst g = of_int (step * m)"
    by (simp only:)
qed

lemma consolidated_order_irrelevant:
  assumes step: "step \<noteq> 0"
    and same: "set d' = set (slot_groups step ps)"
    and dist: "distinct (map fst d')"
  shows "(case consolidate_loop f d' of
            Inl e \<Rightarrow> Inl e
          | Inr c \<Rightarrow> Inr (apply_loop start step vals c))
       = (case consolidate_loop f (slot_groups step ps) of
            Inl e \<Rightarrow> Inl e
          | Inr c \<Rightarrow> Inr (apply_loop start step vals c))"
proof -
  define d where "d = slot_groups step ps"
  define h where "h = (\<lambda>g :: real \<times> sample list.
      (fst g, case consolidate f (snd g) of Inl e \<Rightarrow> None | Inr v \<Rightarrow> v))"
  have sd: "set d' = set d" using same by (simp add: d_def)
  have dd: "distinct (map fst d)" by (simp add: d_def slot_groups_distinct)
  have dv: "\<forall>g\<in>set d. \<exists>m. fst g = of_int (step * m)"
    unfolding d_def by (rule slot_groups_keys_multiple)
  have fst_h: "map fst (map h xs) = map fst xs" for xs by (simp add: h_def comp_def)
  have "(case consolidate_loop f d' of Inl e \<Rightarrow> Inl e
          | Inr c \<Rightarrow> Inr (apply_loop start step vals c))
       = (case consolidate_loop f d of Inl e \<Rightarrow> Inl e
          | Inr c \<Rightarrow> Inr (apply_loop start step vals c))"
  proof (cases "consolidate_loop f d")
    case (Inl e)
    then have "consolidate_loop f d' = Inl e"
      unfolding consolidate_loop_Inl_iff sd .
    with Inl show ?thesis by simp
  next
    case (Inr c)
    have "\<not> (\<exists>e. consolidate_loop f d' = Inl e)"
    proof
      assume "\<exists>e. consolidate_loop f d' = Inl e"
      then obtain e where "consolidate_loop f d' = Inl e" ..
      then have "consolidate_loop f d = Inl e" unfolding consolidate_loop_Inl_iff sd .
      with Inr show False by simp
    qed
    then obtain c' where c': "consolidate_loop f d' = Inr c'"
      by (cases "consolidate_loop f d'") auto
    have c_eq: "c = map h d" using consolidate_loop_Inr_map [OF Inr] by (simp add: h_def)
    have c'_eq: "c' = map h d'" using consolidate_loop_Inr_map [OF c'] by (simp add: h_def)
    have "apply_loop start step vals c' = apply_loop start step vals c"
    proof (rule apply_loop_order [OF step])
      show "distinct (map fst c')" unfolding c'_eq fst_h by (rule dist)
      show "distinct (map fst c)" unfolding c_eq fst_h by (rule dd)
      show "set c' = set c" unfolding c_eq c'_eq by (simp add: sd)
      show "\<forall>p\<in>set c'. \<exists>m. fst p = of_int (step * m)"
        unfolding c'_eq using dv sd by (auto simp: h_def)
    qed
    with Inr c' show ?thesis by simp
  qed
  then show ?thesis unfolding d_def .
qed

section \<open>Archive readers\<close>

lemma merge_with_cache_no_points: "merge_with_cache [] start step vals func = Inr vals"
  by (simp add: merge_with_cache_def apply_loop_def split: option.splits)

text \<open>
  Claim C8. In the Ceres and the Whisper reader a failing cache query is caught and
  counts as an empty cache: the fetch returns what it returns for an empty reply,
  which is the window and the values read from the archive, unchanged. (For Whisper
  the archive's metadata must list at least one archive, as every Whisper file does;
  otherwise \<^verbatim>\<open>min\<close> of the empty list raises before the cache is asked.)
\<close>

theorem cache_failure_is_empty_cache:
  "CeresReader_fetch data (Inl e) =
      Inr ((startTime data, endTime data, timeStep data), data_values data)
   \<and> CeresReader_fetch data (Inl e) = CeresReader_fetch data (Inr (PointList []))
   \<and> (archives meta_info \<noteq> [] \<longrightarrow>
        WhisperReader_fetch (Some (time_info, vals)) meta_info (Inl e) = Inr (Some (time_info, vals)))
   \<and> WhisperReader_fetch archive_data meta_info (Inl e)
        = WhisperReader_fetch archive_data meta_info (Inr (PointList []))"
proof -
  have a: "CeresReader_fetch data (Inl e) =
      Inr ((startTime data, endTime data, timeStep data), data_values data)"
    by (simp add: CeresReader_fetch_def Let_def merge_with_cache_no_points)
  have b: "CeresReader_fetch data (Inl e) = CeresReader_fetch data (Inr (PointList []))"
    by (simp add: CeresReader_fetch_def)
  have c: "archives meta_info \<noteq> [] \<longrightarrow>
        WhisperReader_fetch (Some (time_info, vals)) meta_info (Inl e) = Inr (Some (time_info, vals))"
    by (simp add: WhisperReader_fetch_def Let_def merge_with_cache_no_points split: prod.splits)
  have d: "WhisperReader_fetch archive_data meta_info (Inl e)
        = WhisperReader_fetch archive_data meta_info (Inr (PointList []))"
    by (simp add: WhisperReader_fetch_def Let_def split: option.splits prod.splits)
  show ?thesis by (intro conjI a b c d)
qed

theorem cache_failure_is_empty_cache_witness:
  "WhisperReader_fetch (Some ((0, 180, 60), [Some 1, None, Some 3]))
      \<lparr>aggregationMethod = ''average'', archives = [60, 300]\<rparr> (Inl CarbonLinkError)
     = Inr (Some ((0, 180, 60), [Some 1, None, Some 3]))
   \<and> CeresReader_fetch \<lparr>startTime = 0, endTime = 180, timeStep = 60,
        data_values = [Some 1, None, Some 3]\<rparr> (Inl CarbonLinkError)
     = Inr ((0, 180, 60), [Some 1, None, Some 3])"
proof -
  have h: "archives \<lparr>aggregationMethod = ''average'', archives = [60, 300]\<rparr> \<noteq> []" by simp
  note t = cache_failure_is_empty_cache
    [of "\<lparr>startTime = 0, endTime = 180, timeStep = 60, data_values = [Some 1, None, Some 3]\<rparr>"
        CarbonLinkError "\<lparr>aggregationMethod = ''average'', archives = [60, 300]\<rparr>"
        "(0, 180, 60)" "[Some 1, None, Some 3]" None]
  have a: "WhisperReader_fetch (Some ((0, 180, 60), [Some 1, None, Some 3]))
      \<lparr>aggregationMethod = ''average'', archives = [60, 300]\<rparr> (Inl CarbonLinkError)
     = Inr (Some ((0, 180, 60), [Some 1, None, Some 3]))"
    by (rule t [THEN conjunct2, THEN conjunct2, THEN conjunct1, THEN mp, OF h])
  have b: "CeresReader_fetch \<lparr>startTime = 0, endTime = 180, timeStep = 60,
        data_values = [Some 1, None, Some 3]\<rparr> (Inl CarbonLinkError)
     = Inr ((0, 180, 60), [Some 1, None, Some 3])"
    using t [THEN conjunct1] by simp
  show ?thesis by (intro conjI a b)
qed

lemma column_Inr:
  "column (int c) rs = Inr vs \<Longrightarrow> vs = map (\<lambda>r. r ! c) rs \<and> (\<forall>r\<in>set rs. c < length r)"
proof (induction rs arbitrary: vs)
  case Nil
  then show ?case by simp
next
  case (Cons r rs)
  then show ?case
    by (auto simp: getitem_def split: sum.splits if_splits)
qed

lemma RRDReader_fetch_snoc:
  "RRDReader_fetch timeInfo columns (rows @ [r]) name =
     (case index_of columns name of
        None \<Rightarrow> Inl ValueError
      | Some c \<Rightarrow> (case column (int c) rows of Inl e \<Rightarrow> Inl e | Inr vals \<Rightarrow> Inr (timeInfo, vals)))"
  by (simp add: RRDReader_fetch_def pop_def split: option.splits)

text \<open>
  Claim C9. The values the round-robin reader returns never include the last row of
  the backend's reply: the result is the same whatever the last row is, and whenever
  the fetch returns values, they are the chosen column of all rows but the last, so
  one fewer than the rows. (On a reply without rows \<^verbatim>\<open>rows.pop()\<close> raises, and no
  values are returned.)
\<close>

theorem rrd_fetch_drops_last_row:
  "RRDReader_fetch timeInfo columns (rows @ [last_row]) name
     = RRDReader_fetch timeInfo columns (rows @ [other_row]) name
   \<and> (RRDReader_fetch timeInfo columns all_rows name = Inr (ti, vals) \<longrightarrow>
        all_rows \<noteq> [] \<and> ti = timeInfo \<and> length vals = length all_rows - 1
        \<and> (\<exists>c. index_of columns name = Some c \<and> vals = map (\<lambda>row. row ! c) (butlast all_rows)))"
proof -
  have a: "RRDReader_fetch timeInfo columns (rows @ [last_row]) name
     = RRDReader_fetch timeInfo columns (rows @ [other_row]) name"
    by (simp add: RRDReader_fetch_snoc)
  have b: "RRDReader_fetch timeInfo columns all_rows name = Inr (ti, vals) \<longrightarrow>
        all_rows \<noteq> [] \<and> ti = timeInfo \<and> length vals = length all_rows - 1
        \<and> (\<exists>c. index_of columns name = Some c \<and> vals = map (\<lambda>row. row ! c) (butlast all_rows))"
  proof
    assume r: "RRDReader_fetch timeInfo columns all_rows name = Inr (ti, vals)"
    then obtain c where c: "index_of columns name = Some c"
      by (auto simp: RRDReader_fetch_def split: option.splits)
    from r c have ne: "all_rows \<noteq> []"
      by (auto simp: RRDReader_fetch_def pop_def split: if_splits)
    from r c ne have col: "column (int c) (butlast all_rows) = Inr vals" and ti: "ti = timeInfo"
      by (auto simp: RRDReader_fetch_def pop_def split: sum.splits)
    from column_Inr [OF col] have v: "vals = map (\<lambda>row. row ! c) (butlast all_rows)" by simp
    then have "length vals = length all_rows - 1" by simp
    with ne ti c v
    show "all_rows \<noteq> [] \<and> ti = timeInfo \<and> length vals = length all_rows - 1
        \<and> (\<exists>c. index_of columns name = Some c \<and> vals = map (\<lambda>row. row ! c) (butlast all_rows))"
      by blast
  qed
  show ?thesis by (intro conjI a b)
qed

theorem rrd_fetch_drops_last_row_witness:
  "RRDReader_fetch (0, 180, 60) [''a'', ''b'']
      [[Some 1, Some 2], [Some 3, Some 4], [None, Some 99]] ''b''
     = Inr ((0, 180, 60), [Some 2, Some 4])
   \<and> length [Some 2, Some (4::real)] = length [[Some 1, Some 2], [Some 3, Some 4], [None, Some (99::real)]] - 1"
proof -
  have r: "RRDReader_fetch (0, 180, 60) [''a'', ''b'']
      [[Some 1, Some 2], [Some 3, Some 4], [None, Some 99]] ''b''
     = Inr ((0, 180, 60), [Some 2, Some 4])"
    by (simp add: RRDReader_fetch_def pop_def getitem_def)
  from rrd_fetch_drops_last_row [THEN conjunct2, THEN mp, OF r]
  have "length [Some 2, Some (4::real)] = length [[Some 1, Some 2], [Some 3, Some 4], [None, Some (99::real)]] - 1"
    by blast
  with r show ?thesis by (intro conjI)
qed

section \<open>The multi-source reader\<close>

lemma merge_slot_claimed:
  assumes "step1 \<noteq> 0" "step2 \<noteq> 0"
    and "0 \<le> (t - start1) div step1" "0 \<le> (t - start2) div step2"
  shows "merge_slot ((start1, end1, step1), values1) ((start2, end2, step2), values2) t
       = Inr (claimed_slot ((start1, end1, step1), values1) ((start2, end2, step2), values2) t)"
  using assms
  by (auto simp: merge_slot_def claimed_slot_def floordiv_def lookup_slot_def getitem_def Let_def
      split: sum.splits option.splits)

lemma merge_loop_claimed:
  assumes "0 < step"
    and "\<And>t. t0 \<le> t \<Longrightarrow> merge_slot r1 r2 t = Inr (f t)"
  shows "merge_loop r1 r2 step end_time t0 acc = Some (Inr (acc @ map f (slot_times t0 step end_time)))"
  using assms(2)
proof (induction "nat (end_time - t0)" arbitrary: t0 acc rule: less_induct)
  case less
  show ?case
  proof (cases "t0 < end_time")
    case False
    then show ?thesis
      by (subst merge_loop.simps) (simp add: slot_times.simps [of t0])
  next
    case True
    have m: "nat (end_time - (t0 + step)) < nat (end_time - t0)"
      using True assms(1) by linarith
    have s: "\<And>t. t0 + step \<le> t \<Longrightarrow> merge_slot r1 r2 t = Inr (f t)"
      using less.prems assms(1) by simp
    have here: "merge_slot r1 r2 t0 = Inr (f t0)" using less.prems by simp
    show ?thesis
      by (subst merge_loop.simps)
        (simp add: True here less.hyps [OF m s] slot_times.simps [of t0] assms(1))
  qed
qed


lemma merge_finer_first:
  assumes "0 < step1" "0 < step2" "step1 \<le> step2"
  shows "merge ((start, end1, step1), values1) ((start, end2, step2), values2)
       = Some (Inr ((start, max end1 end2, step1),
           map (claimed_slot ((start, end1, step1), values1) ((start, end2, step2), values2))
             (slot_times start step1 (max end1 end2))))"
proof -
  let ?r1 = "((start, end1, step1), values1)" and ?r2 = "((start, end2, step2), values2)"
  have slot: "merge_slot ?r1 ?r2 t = Inr (claimed_slot ?r1 ?r2 t)" if "start \<le> t" for t
  proof -
    from that assms have "0 \<le> (t - start) div step1" "0 \<le> (t - start) div step2"
      by (simp_all add: pos_imp_zdiv_nonneg_iff)
    with assms show ?thesis by (intro merge_slot_claimed) simp_all
  qed
  have "merge_loop ?r1 ?r2 step1 (max end1 end2) start []
      = Some (Inr ([] @ map (claimed_slot ?r1 ?r2) (slot_times start step1 (max end1 end2))))"
    by (rule merge_loop_claimed [OF assms(1) slot])
  with assms(3) show ?thesis by (simp add: merge_def Let_def)
qed

lemma merge_same_start:
  assumes "0 < step1" "0 < step2"
  shows "merge ((start, end1, step1), values1) ((start, end2, step2), values2)
       = Some (Inr (claimed_merge ((start, end1, step1), values1) ((start, end2, step2), values2)))"
proof (cases "step1 \<le> step2")
  case True
  with merge_finer_first [OF assms True, of start end1 values1 end2 values2]
  show ?thesis by (simp add: claimed_merge_def)
next
  case False
  then have le: "step2 \<le> step1" by simp
  have sw: "merge ((start, end1, step1), values1) ((start, end2, step2), values2)
      = merge ((start, end2, step2), values2) ((start, end1, step1), values1)"
    using False by (simp add: merge_def)
  from merge_finer_first [OF assms(2) assms(1) le, of start end2 values2 end1 values1] False
  show ?thesis unfolding sw by (simp add: claimed_merge_def max.commute)
qed


text \<open>
  Claim C1. The pairwise merge takes the series with the smaller step as primary; the
  merged window is the earlier start, the later end and the finer step; and the value
  of a slot is the finer series' value if its index exists and the value is present,
  otherwise the coarser series' value if its index exists, otherwise missing
  (\<open>claimed_merge\<close>). For two series with the same start and positive steps \<open>merge\<close>
  returns exactly that (\<open>merge_same_start\<close>, and the example of the specification in
  \<open>merge_spec_example\<close>). Where the starts differ, the slots before the later start have
  a negative index in that series; \<open>merge\<close> bounds the index from above only, so the
  read counts from the end of the list or raises. Below, the finer series starts at
  1010 and the coarser at 1020: the slot at 1010 is missing in the finer series and
  precedes the coarser one, so it is missing by the claim, and \<open>merge\<close> gives it the
  coarser series' last value 9. In the second pair \<open>merge\<close> raises \<^verbatim>\<open>IndexError\<close>.
\<close>

theorem merge_reads_from_the_end:
  "merge ((1010, 1040, 10), [None, Some 2, Some 3]) ((1020, 1140, 60), [Some 5, Some 9])
     = Some (Inr ((1010, 1140, 10),
         [Some 9, Some 2, Some 3, Some 5, Some 5, Some 5, Some 5,
          Some 9, Some 9, Some 9, Some 9, Some 9, Some 9]))
   \<and> claimed_merge ((1010, 1040, 10), [None, Some 2, Some 3]) ((1020, 1140, 60), [Some 5, Some 9])
     = ((1010, 1140, 10),
         [None, Some 2, Some 3, Some 5, Some 5, Some 5, Some 5,
          Some 9, Some 9, Some 9, Some 9, Some 9, Some 9])
   \<and> merge ((20, 30, 10), [Some 7]) ((0, 30, 10), [None, None, None]) = Some (Inl IndexError)
   \<and> claimed_merge ((20, 30, 10), [Some 7]) ((0, 30, 10), [None, None, None])
     = ((0, 30, 10), [None, None, Some 7])"
proof -
  have a: "merge ((1010, 1040, 10), [None, Some 2, Some 3]) ((1020, 1140, 60), [Some 5, Some 9])
     = Some (Inr ((1010, 1140, 10),
         [Some 9, Some 2, Some 3, Some 5, Some 5, Some 5, Some 5,
          Some 9, Some 9, Some 9, Some 9, Some 9, Some 9]))"
    by (simp add: merge_def merge_loop.simps merge_slot_def floordiv_def lookup_slot_def
        getitem_def)
  have b: "claimed_merge ((1010, 1040, 10), [None, Some 2, Some 3])
       ((1020, 1140, 60), [Some 5, Some 9])
     = ((1010, 1140, 10),
         [None, Some 2, Some 3, Some 5, Some 5, Some 5, Some 5,
          Some 9, Some 9, Some 9, Some 9, Some 9, Some 9])"
    by (simp add: claimed_merge_def claimed_slot_def slot_times.simps)
  have c: "merge ((20, 30, 10), [Some 7]) ((0, 30, 10), [None, None, None]) = Some (Inl IndexError)"
    by (simp add: merge_def merge_loop.simps merge_slot_def floordiv_def lookup_slot_def
        getitem_def)
  have d: "claimed_merge ((20, 30, 10), [Some 7]) ((0, 30, 10), [None, None, None])
     = ((0, 30, 10), [None, None, Some 7])"
    by (simp add: claimed_merge_def claimed_slot_def slot_times.simps)
  show ?thesis by (intro conjI a b c d)
qed

lemma merge_spec_example:
  "merge ((0, 100, 10), replicate 10 None) ((0, 120, 60), [Some 5, Some 5])
    = Some (Inr ((0, 120, 10), replicate 12 (Some 5)))"
  by (simp add: merge_def merge_loop.simps merge_slot_def floordiv_def lookup_slot_def getitem_def
      eval_nat_numeral)

lemma merge_results_skips_data: "merge_results (Data r # fetches) = merge_results fetches"
  by (simp add: merge_results_def)

text \<open>
  Claim C2. Every node is asked first, every handle is awaited, a node whose await
  fails is left out, and every other result, returned directly or by a handle, takes
  part in the reduction. The loop that collects the results stores an entry only
  for a handle (\<open>merge_results_skips_data\<close>): below, the first node returns its series
  directly and the second through a handle, and the fetch returns the second series
  alone, where the merge of the two has the first node's values 1 and 2 in its first
  two slots.
\<close>

theorem direct_result_left_out:
  "MultiReader_fetch
     [\<lambda>startTime endTime. Inr (Data (Some ((0, 20, 10), [Some 1, Some 2]))),
      \<lambda>startTime endTime. Inr (FetchInProgress (Inr (Some ((0, 60, 60), [Some 9]))))] 0 20
    = Inr (Some (Inr ((0, 60, 60), [Some 9])))
   \<and> merge ((0, 20, 10), [Some 1, Some 2]) ((0, 60, 60), [Some 9])
    = Some (Inr ((0, 60, 10), [Some 1, Some 2, Some 9, Some 9, Some 9, Some 9]))"
proof -
  have a: "MultiReader_fetch
     [\<lambda>startTime endTime. Inr (Data (Some ((0, 20, 10), [Some 1, Some 2]))),
      \<lambda>startTime endTime. Inr (FetchInProgress (Inr (Some ((0, 60, 60), [Some 9]))))] 0 20
    = Inr (Some (Inr ((0, 60, 60), [Some 9])))"
    by (simp add: MultiReader_fetch_def merge_results_def)
  have b: "merge ((0, 20, 10), [Some 1, Some 2]) ((0, 60, 60), [Some 9])
    = Some (Inr ((0, 60, 10), [Some 1, Some 2, Some 9, Some 9, Some 9, Some 9]))"
    by (simp add: merge_def merge_loop.simps merge_slot_def floordiv_def lookup_slot_def
        getitem_def)
  show ?thesis by (intro conjI a b)
qed

text \<open>
  Claim C3. The fetch fails with the all-sub-fetches-failed error exactly when every
  source failed or returned no data. Counting the handles only, this is what
  \<open>merge_results\<close> does (\<open>merge_results_all_failed_iff\<close>, \<open>no_survivor_iff\<close>); a source
  that returned its data directly is not counted: below, the only node returns a
  series directly and the fetch fails with that error.
\<close>

theorem all_failed_despite_data:
  "MultiReader_fetch [\<lambda>startTime endTime. Inr (Data (Some ((0, 20, 10), [Some 1, Some 2])))] 0 20
    = Inr (Some (Inl AllSubFetchesFailed))"
  by (simp add: MultiReader_fetch_def merge_results_def)


lemma merge_slot_errors:
  "merge_slot r1 r2 t = Inl x \<Longrightarrow> x = IndexError \<or> x = ZeroDivisionError"
  by (auto simp: merge_slot_def floordiv_def lookup_slot_def getitem_def
      split: prod.splits sum.splits option.splits if_splits)

lemma merge_loop_errors:
  assumes "merge_loop r1 r2 step end_time t acc = Some y"
  shows "\<forall>x. y = Inl x \<longrightarrow> x = IndexError \<or> x = ZeroDivisionError"
proof (rule merge_loop.raw_induct
    [where P = "\<lambda>r1 r2 step end_time t acc y. \<forall>x. y = Inl x \<longrightarrow> x = IndexError \<or> x = ZeroDivisionError",
     OF _ assms])
  fix loop :: "fetched \<Rightarrow> fetched \<Rightarrow> int \<Rightarrow> int \<Rightarrow> int \<Rightarrow> sample list \<Rightarrow> (exn + sample list) option"
  fix results1 results2 step end_time t acc y
  assume ih: "\<And>results1 results2 step end_time t acc y.
      loop results1 results2 step end_time t acc = Some y \<Longrightarrow>
      \<forall>x. y = Inl x \<longrightarrow> x = IndexError \<or> x = ZeroDivisionError"
  assume body: "(if t < end_time
      then case merge_slot results1 results2 t of Inl e \<Rightarrow> Some (Inl e)
           | Inr v \<Rightarrow> loop results1 results2 step end_time (t + step) (acc @ [v])
      else Some (Inr acc)) = Some y"
  show "\<forall>x. y = Inl x \<longrightarrow> x = IndexError \<or> x = ZeroDivisionError"
  proof (cases "t < end_time")
    case False
    with body show ?thesis by auto
  next
    case True
    show ?thesis
    proof (cases "merge_slot results1 results2 t")
      case (Inl e)
      with True body have "y = Inl e" by simp
      with merge_slot_errors [OF Inl] show ?thesis by simp
    next
      case (Inr v)
      with True body have "loop results1 results2 step end_time (t + step) (acc @ [v]) = Some y"
        by simp
      then show ?thesis by (rule ih)
    qed
  qed
qed

lemma merge_errors:
  assumes "merge results1 results2 = Some (Inl x)"
  shows "x = IndexError \<or> x = ZeroDivisionError"
proof -
  from assms obtain r1 r2 step end_time t where
    "merge_loop r1 r2 step end_time t [] = Some (Inl x)"
    by (auto simp: merge_def Let_def split: prod.splits option.splits sum.splits if_splits)
  from merge_loop_errors [OF this] show ?thesis by simp
qed

lemma reduce_merge_errors:
  "reduce_merge acc rs = Some (Inl x) \<Longrightarrow> x = IndexError \<or> x = ZeroDivisionError"
proof (induction rs arbitrary: acc)
  case Nil
  then show ?case by simp
next
  case (Cons r rs)
  show ?case
  proof (cases "merge acc r")
    case None
    with Cons.prems show ?thesis by simp
  next
    case (Some res)
    show ?thesis
    proof (cases res)
      case (Inl e)
      with Some Cons.prems have "e = x" by simp
      with Some Inl merge_errors [of acc r x] show ?thesis by simp
    next
      case (Inr m)
      with Some Cons.prems have "reduce_merge m rs = Some (Inl x)" by simp
      then show ?thesis by (rule Cons.IH)
    qed
  qed
qed

lemma merge_results_all_failed_iff:
  "merge_results fetches = Some (Inl AllSubFetchesFailed)
     \<longleftrightarrow> not_none (wait_loop fetches) = []"
proof (cases "not_none (wait_loop fetches)")
  case Nil
  then show ?thesis by (simp add: merge_results_def)
next
  case (Cons r rs)
  have "reduce_merge r rs \<noteq> Some (Inl AllSubFetchesFailed)"
    using reduce_merge_errors [of r rs AllSubFetchesFailed] by auto
  with Cons show ?thesis by (simp add: merge_results_def)
qed

lemma no_survivor_iff:
  "not_none (wait_loop fetches) = [] \<longleftrightarrow>
     (\<forall>w. FetchInProgress w \<in> set fetches \<longrightarrow> (\<exists>e. w = Inl e) \<or> w = Inr None)"
proof (induction fetches)
  case Nil
  show ?case by simp
next
  case (Cons f fetches)
  show ?case
  proof (cases f)
    case (Data r)
    with Cons show ?thesis by auto
  next
    case (FetchInProgress w)
    show ?thesis
    proof (cases w)
      case (Inl e)
      with FetchInProgress Cons show ?thesis by auto
    next
      case (Inr r)
      with FetchInProgress Cons show ?thesis by (cases r) auto
    qed
  qed
qed


lemma merge_loop_returns:
  assumes "0 < step"
  shows "\<exists>r. merge_loop r1 r2 step end_time t acc = Some r"
proof (induction "nat (end_time - t)" arbitrary: t acc rule: less_induct)
  case less
  show ?case
  proof (cases "t < end_time")
    case False
    then show ?thesis by (subst merge_loop.simps) simp
  next
    case True
    show ?thesis
    proof (cases "merge_slot r1 r2 t")
      case (Inl e)
      with True show ?thesis by (subst merge_loop.simps) simp
    next
      case (Inr v)
      have "nat (end_time - (t + step)) < nat (end_time - t)"
        using True assms by linarith
      from less [OF this, of "acc @ [v]"] True Inr show ?thesis
        by (subst merge_loop.simps) simp
    qed
  qed
qed

lemma merge_returns:
  assumes "0 < snd (snd (fst results1))" "0 < snd (snd (fst results2))"
  shows "\<exists>r. merge results1 results2 = Some r"
proof -
  obtain s1 e1 p1 v1 where r1: "results1 = ((s1, e1, p1), v1)" by (cases results1) auto
  obtain s2 e2 p2 v2 where r2: "results2 = ((s2, e2, p2), v2)" by (cases results2) auto
  from assms have p: "0 < p1" "0 < p2" by (simp_all add: r1 r2)
  show ?thesis
  proof (cases "p1 > p2")
    case True
    from merge_loop_returns [OF p(2), of results2 results1 "max e2 e1" "min s2 s1" "[]"]
    obtain r where "merge_loop results2 results1 p2 (max e2 e1) (min s2 s1) [] = Some r" by blast
    with True show ?thesis
      by (cases r) (simp_all add: merge_def r1 r2 Let_def)
  next
    case False
    from merge_loop_returns [OF p(1), of results1 results2 "max e1 e2" "min s1 s2" "[]"]
    obtain r where "merge_loop results1 results2 p1 (max e1 e2) (min s1 s2) [] = Some r" by blast
    with False show ?thesis
      by (cases r) (simp_all add: merge_def r1 r2 Let_def)
  qed
qed

end
